theory Spec2Isabelle
  imports Main "HOL-Library.Word" "HOL-Library.Multiset"
begin

section \<open>The max\_intersections aggregate (max\_intersections.cpp)\<close>

text \<open>
  The aggregate is instantiated as
  \<^verbatim>\<open>BinaryAggregate<MaxIntersectionsState, int64_t, int64_t, int64_t, MaxIntersectionsFunction>\<close>,
  so \<^verbatim>\<open>A_TYPE\<close>, \<^verbatim>\<open>B_TYPE\<close> and the result type \<^verbatim>\<open>T\<close> are all
  \<^verbatim>\<open>int64_t\<close> and the \<^verbatim>\<open>static_cast<int64_t>\<close> of the arguments is the identity.
  Machine integers are words: \<open>+\<close> wraps around, \<open>\<le>s\<close> and \<open><s\<close> are the signed
  comparisons of C++, \<open>sint\<close> reads the two's complement value. (Signed overflow is
  undefined in C++; the model shows the wrap-around every supported target performs.)
\<close>

type_synonym int64_t = "64 word"
type_synonym int32_t = "32 word"
type_synonym idx_t = "64 word"

subsection \<open>State\<close>

text \<open>\<^verbatim>\<open>struct MaxIntersectionsState { std::vector<std::pair<int64_t, int64_t>> intervals; }\<close>\<close>

record MaxIntersectionsState =
  intervals :: "(int64_t \<times> int64_t) list"

text \<open>\<^verbatim>\<open>Initialize\<close>: placement-new of the default constructor; the vector is empty
  (\<^verbatim>\<open>reserve(64)\<close> changes the capacity only).\<close>

definition Initialize :: MaxIntersectionsState where
  "Initialize = \<lparr>intervals = []\<rparr>"

subsection \<open>Operation, ConstantOperation, Combine\<close>

text \<open>\<^verbatim>\<open>if (left <= right) state.intervals.emplace_back(left, right);\<close>\<close>

definition Operation ::
  "MaxIntersectionsState \<Rightarrow> int64_t \<Rightarrow> int64_t \<Rightarrow> MaxIntersectionsState" where
  "Operation state left right =
     (if left \<le>s right
      then state\<lparr>intervals := intervals state @ [(left, right)]\<rparr>
      else state)"

text \<open>The loop \<^verbatim>\<open>for (idx_t i = 0; i < count; i++) state.intervals.emplace_back(interval);\<close>
  with the number of remaining iterations as the recursion argument (\<^verbatim>\<open>count\<close> is
  written \<open>cnt\<close>: the name is taken by multisets).\<close>

primrec emplace_back_loop ::
  "nat \<Rightarrow> (int64_t \<times> int64_t) \<Rightarrow> (int64_t \<times> int64_t) list \<Rightarrow> (int64_t \<times> int64_t) list" where
  "emplace_back_loop 0 interval v = v"
| "emplace_back_loop (Suc n) interval v = emplace_back_loop n interval (v @ [interval])"

definition ConstantOperation ::
  "MaxIntersectionsState \<Rightarrow> int64_t \<Rightarrow> int64_t \<Rightarrow> idx_t \<Rightarrow> MaxIntersectionsState" where
  "ConstantOperation state left right cnt =
     (if left \<le>s right
      then (let interval = (left, right)
            in state\<lparr>intervals := emplace_back_loop (unat cnt) interval (intervals state)\<rparr>)
      else state)"

text \<open>\<^verbatim>\<open>Combine(const STATE &source, STATE &target)\<close> on the values of two distinct state
  objects: the function returns the new value of the target. (The call on addressed
  objects, where the two references may name the same object, is \<open>Combine_at\<close> below.)\<close>

definition Combine :: "MaxIntersectionsState \<Rightarrow> MaxIntersectionsState \<Rightarrow> MaxIntersectionsState" where
  "Combine source target =
     (if intervals source = [] then target
      else target\<lparr>intervals := intervals target @ intervals source\<rparr>)"

subsection \<open>Finalize\<close>

type_synonym event = "int64_t \<times> int32_t"

text \<open>The loop that creates the two events of every interval, in order:
  \<^verbatim>\<open>(interval.first, 1)\<close> and \<^verbatim>\<open>(interval.second + 1, -1)\<close>. The addition is on
  \<^verbatim>\<open>int64_t\<close>; at \<^verbatim>\<open>interval.second = INT64_MAX\<close> the word wraps to \<^verbatim>\<open>INT64_MIN\<close>.\<close>

fun make_events :: "(int64_t \<times> int64_t) list \<Rightarrow> event list" where
  "make_events [] = []"
| "make_events (interval # rest) =
     (fst interval, 1) # (snd interval + 1, - 1) # make_events rest"

text \<open>The comparator handed to \<^verbatim>\<open>std::sort\<close>.\<close>

definition event_less :: "event \<Rightarrow> event \<Rightarrow> bool" where
  "event_less a b = (if fst a = fst b then snd a <s snd b else fst a <s fst b)"

text \<open>
  \<^verbatim>\<open>std::sort\<close> with that comparator. The comparator is a strict total order on events
  (two events that are not ordered by it are equal), so the sorted sequence is determined
  by the multiset of events whatever algorithm the library runs (lemma
  \<open>sort_events_unique\<close> below: every sorted permutation of the events is this one); the model
  sorts by insertion.
\<close>

fun insert_event :: "event \<Rightarrow> event list \<Rightarrow> event list" where
  "insert_event e [] = [e]"
| "insert_event e (x # xs) =
     (if event_less e x then e # x # xs else x # insert_event e xs)"

fun sort_events :: "event list \<Rightarrow> event list" where
  "sort_events [] = []"
| "sort_events (e # es) = insert_event e (sort_events es)"

text \<open>The sweep loop. \<^verbatim>\<open>current_count += event.second\<close> converts the \<^verbatim>\<open>int32_t\<close>
  delta to \<^verbatim>\<open>int64_t\<close> (sign extension, \<open>scast\<close>) and adds.\<close>

fun sweep :: "int64_t \<Rightarrow> int64_t \<Rightarrow> event list \<Rightarrow> int64_t" where
  "sweep current_count max_count [] = max_count"
| "sweep current_count max_count (event # rest) =
     (let current_count' = current_count + scast (snd event);
          max_count' = (if max_count <s current_count' then current_count' else max_count)
      in sweep current_count' max_count' rest)"

definition Finalize :: "MaxIntersectionsState \<Rightarrow> int64_t" where
  "Finalize state =
     (if intervals state = [] then 0
      else if length (intervals state) = 1 then 1
      else sweep 0 0 (sort_events (make_events (intervals state))))"

subsection \<open>Sequences of operations\<close>

text \<open>Accumulating a list of input rows, one \<^verbatim>\<open>Operation\<close> call per row, in order.\<close>

fun accumulate_all ::
  "MaxIntersectionsState \<Rightarrow> (int64_t \<times> int64_t) list \<Rightarrow> MaxIntersectionsState" where
  "accumulate_all state [] = state"
| "accumulate_all state (row # rows) = accumulate_all (Operation state (fst row) (snd row)) rows"


text \<open>
  A computation on states: a fresh state, one more \<^verbatim>\<open>Operation\<close> or
  \<^verbatim>\<open>ConstantOperation\<close> call on a state, or the \<^verbatim>\<open>Combine\<close> of a source into a target.
  The constructors carry the operation names of the specification (Initialize, Accumulate,
  ConstantAccumulate, Merge); \<open>run\<close> executes the calls. A partition of the input into
  groups, each accumulated into its own state, with the states merged in some order and
  grouping, is one such computation: the groups are the chains of accumulations that start
  at \<open>Fresh\<close>, the merges are the \<open>Merge\<close> nodes.
\<close>

datatype plan =
    Fresh
  | Accumulate plan int64_t int64_t
  | ConstantAccumulate plan int64_t int64_t idx_t
  | Merge plan plan

fun run :: "plan \<Rightarrow> MaxIntersectionsState" where
  "run Fresh = Initialize"
| "run (Accumulate p left right) = Operation (run p) left right"
| "run (ConstantAccumulate p left right cnt) = ConstantOperation (run p) left right cnt"
| "run (Merge source target) = Combine (run source) (run target)"

text \<open>The input rows a computation feeds to the aggregate, with multiplicity.\<close>

fun plan_rows :: "plan \<Rightarrow> (int64_t \<times> int64_t) multiset" where
  "plan_rows Fresh = {#}"
| "plan_rows (Accumulate p left right) = add_mset (left, right) (plan_rows p)"
| "plan_rows (ConstantAccumulate p left right cnt) =
     replicate_mset (unat cnt) (left, right) + plan_rows p"
| "plan_rows (Merge source target) = plan_rows source + plan_rows target"

subsection \<open>Combine on addressed states\<close>

text \<open>
  \<^verbatim>\<open>Combine\<close> receives two references and has no check that they differ. The store maps
  the address of a state object to its value. With an empty source the call returns at
  once. Otherwise it reads the source's vector and appends its elements to the target's
  vector: the only cell written is the target's. When both references name the same
  object, the range appended is the vector's own content (after the \<^verbatim>\<open>reserve\<close> the
  \<^verbatim>\<open>insert\<close> copies it in place, without reallocation), so that object ends with its
  sequence twice.
\<close>

type_synonym state_ptr = nat
type_synonym heap = "state_ptr \<Rightarrow> MaxIntersectionsState"

definition Combine_at :: "heap \<Rightarrow> state_ptr \<Rightarrow> state_ptr \<Rightarrow> heap" where
  "Combine_at h source target =
     (if intervals (h source) = [] then h
      else h(target := (h target)\<lparr>intervals := intervals (h target) @ intervals (h source)\<rparr>))"

text \<open>A store in which every state object is freshly initialized.\<close>

definition fresh_heap :: heap where
  "fresh_heap = (\<lambda>_. Initialize)"

subsection \<open>What the aggregate is to compute\<close>

text \<open>
  The number of intervals of \<open>ivs\<close>, with multiplicity, that contain the integer point
  \<open>p\<close> (both ends inclusive). This follows the words of the specification, not the code.
\<close>

definition overlap_at :: "(int64_t \<times> int64_t) list \<Rightarrow> int \<Rightarrow> nat" where
  "overlap_at ivs p = length (filter (\<lambda>i. sint (fst i) \<le> p \<and> p \<le> sint (snd i)) ivs)"

text \<open>An interval with \<open>start \<le> end\<close> whose end is below \<^verbatim>\<open>INT64_MAX\<close>, so that
  \<^verbatim>\<open>end + 1\<close> does not overflow.\<close>

definition valid_interval :: "int64_t \<times> int64_t \<Rightarrow> bool" where
  "valid_interval i = (fst i \<le>s snd i \<and> sint (snd i) < 2 ^ 63 - 1)"

subsection \<open>Auxiliary notions of the proofs\<close>

text \<open>The sum of the deltas of a list of events, and the sweep loop on unbounded integers.\<close>

definition delta_sum :: "event list \<Rightarrow> int" where
  "delta_sum es = sum_list (map (\<lambda>e. sint (snd e)) es)"

fun sweep_int :: "int \<Rightarrow> int \<Rightarrow> int list \<Rightarrow> int" where
  "sweep_int c m [] = m"
| "sweep_int c m (d # ds) = sweep_int (c + d) (max m (c + d)) ds"

section \<open>The days\_in\_month scalar function (days\_in\_month.cpp)\<close>

text \<open>
  The argument types of the four overloads, the values of a column (\<open>None\<close> is NULL) and
  the chunk of argument columns a scalar function receives. A scalar function either
  fills the result vector or throws.
\<close>

datatype LogicalType = INTEGER | DATE | TIMESTAMP | TIME

datatype Value =
    IntegerValue int32_t
  | DateValue int32_t
  | TimestampValue int64_t
  | TimeValue int64_t

type_synonym Vector = "Value option list"

record DataChunk =
  data :: "Vector list"

datatype exception = InvalidInputException string

type_synonym scalar_function_t = "DataChunk \<Rightarrow> exception + Vector"

text \<open>\<^verbatim>\<open>ScalarFunction(arguments, return_type, function)\<close>; the field \<^verbatim>\<open>function\<close> is
  written \<open>func\<close>.\<close>

record ScalarFunction =
  arguments :: "LogicalType list"
  return_type :: LogicalType
  func :: scalar_function_t

text \<open>The body is a single \<^verbatim>\<open>throw\<close>; the arguments are not read.\<close>

definition DaysInMonthTimeFunction :: scalar_function_t where
  "DaysInMonthTimeFunction args =
     Inl (InvalidInputException
       ''days_in_month cannot be used with TIME type - TIME does not contain date information'')"

text \<open>
  \<^verbatim>\<open>DaysInMonthFun::GetFunctions\<close>: the four overloads in the order they are added. The
  bodies of the first three run the vector executors and the \<^verbatim>\<open>Date\<close> and
  \<^verbatim>\<open>Timestamp\<close> helpers, which are outside this file; they are parameters here.
\<close>

definition GetFunctions ::
  "scalar_function_t \<Rightarrow> scalar_function_t \<Rightarrow> scalar_function_t \<Rightarrow> ScalarFunction list" where
  "GetFunctions DaysInMonthBinaryFunction DaysInMonthDateFunction DaysInMonthTimestampFunction =
     [\<lparr>arguments = [INTEGER, INTEGER], return_type = INTEGER, func = DaysInMonthBinaryFunction\<rparr>,
      \<lparr>arguments = [DATE], return_type = INTEGER, func = DaysInMonthDateFunction\<rparr>,
      \<lparr>arguments = [TIMESTAMP], return_type = INTEGER, func = DaysInMonthTimestampFunction\<rparr>,
      \<lparr>arguments = [TIME], return_type = INTEGER, func = DaysInMonthTimeFunction\<rparr>]"

section \<open>Facts about the operations\<close>

lemma intervals_Initialize: "intervals Initialize = []"
  by (simp add: Initialize_def)

lemma emplace_back_loop_replicate:
  "emplace_back_loop n interval v = v @ replicate n interval"
  by (induction n arbitrary: v) (simp_all add: replicate_app_Cons_same)

lemma Operation_funpow:
  "left \<le>s right \<Longrightarrow>
   ((\<lambda>s. Operation s left right) ^^ n) state =
     state\<lparr>intervals := intervals state @ replicate n (left, right)\<rparr>"
proof (induction n)
  case 0
  show ?case by simp
next
  case (Suc n)
  then show ?case
    by (simp add: Operation_def replicate_append_same)
qed

lemma Operation_invalid_funpow:
  "\<not> left \<le>s right \<Longrightarrow> ((\<lambda>s. Operation s left right) ^^ n) state = state"
  by (induction n) (simp_all add: Operation_def)

subsection \<open>The comparator is a strict total order; sorting\<close>

lemma sint_eq_iff: "sint (a::'a::len word) = sint b \<longleftrightarrow> a = b"
  by (auto intro: signed_word_eqI)

lemma event_less_iff:
  "event_less a b \<longleftrightarrow>
     sint (fst a) < sint (fst b) \<or> (sint (fst a) = sint (fst b) \<and> sint (snd a) < sint (snd b))"
  by (auto simp: event_less_def word_sless_alt sint_eq_iff)

lemma event_less_asym: "event_less a b \<Longrightarrow> \<not> event_less b a"
  by (auto simp: event_less_iff)

lemma event_less_trans': "event_less e x \<Longrightarrow> \<not> event_less y x \<Longrightarrow> \<not> event_less y e"
  by (auto simp: event_less_iff)

lemma event_less_antisym: "\<not> event_less a b \<Longrightarrow> \<not> event_less b a \<Longrightarrow> a = b"
  by (auto simp: event_less_iff sint_eq_iff prod_eq_iff)

lemma set_insert_event: "set (insert_event e xs) = insert e (set xs)"
  by (induction xs) auto

lemma mset_insert_event: "mset (insert_event e xs) = add_mset e (mset xs)"
  by (induction xs) auto

lemma mset_sort_events: "mset (sort_events es) = mset es"
  by (induction es) (auto simp: mset_insert_event)

lemma sorted_insert_event:
  "sorted_wrt (\<lambda>a b. \<not> event_less b a) xs \<Longrightarrow>
   sorted_wrt (\<lambda>a b. \<not> event_less b a) (insert_event e xs)"
proof (induction xs)
  case Nil
  show ?case by simp
next
  case (Cons x xs)
  show ?case
  proof (cases "event_less e x")
    case True
    with Cons.prems show ?thesis
      by (auto dest: event_less_asym event_less_trans')
  next
    case False
    with Cons show ?thesis
      by (auto simp: set_insert_event)
  qed
qed

lemma sorted_sort_events: "sorted_wrt (\<lambda>a b. \<not> event_less b a) (sort_events es)"
  by (induction es) (auto intro: sorted_insert_event)

lemma sorted_events_unique:
  "sorted_wrt (\<lambda>a b. \<not> event_less b a) xs \<Longrightarrow>
   sorted_wrt (\<lambda>a b. \<not> event_less b a) ys \<Longrightarrow>
   mset xs = mset ys \<Longrightarrow> xs = ys"
proof (induction xs arbitrary: ys)
  case Nil
  then show ?case by simp
next
  case (Cons x xs)
  from Cons.prems(3) obtain y ys' where ys: "ys = y # ys'"
    by (cases ys) auto
  have "x \<in> set ys" "y \<in> set (x # xs)"
    using Cons.prems(3) ys by (metis list.set_intros(1) mset_eq_setD)+
  then have "x = y"
    using Cons.prems(1,2) ys by (auto intro: event_less_antisym)
  with Cons ys show ?case by auto
qed

lemma sort_events_unique:
  "sorted_wrt (\<lambda>a b. \<not> event_less b a) ys \<Longrightarrow> mset ys = mset es \<Longrightarrow> ys = sort_events es"
  by (rule sorted_events_unique) (simp_all add: sorted_sort_events mset_sort_events)

lemma sort_events_mset_cong: "mset es = mset es' \<Longrightarrow> sort_events es = sort_events es'"
  by (rule sort_events_unique) (simp_all add: sorted_sort_events mset_sort_events)

lemma mset_make_events:
  "mset (make_events ivs) =
     image_mset (\<lambda>i. (fst i, 1)) (mset ivs) + image_mset (\<lambda>i. (snd i + 1, - 1)) (mset ivs)"
  by (induction ivs) auto

lemma Finalize_mset_cong:
  assumes "mset (intervals s) = mset (intervals t)"
  shows "Finalize s = Finalize t"
proof -
  have len: "length (intervals s) = length (intervals t)"
    using assms by (rule mset_eq_length)
  have "mset (make_events (intervals s)) = mset (make_events (intervals t))"
    by (simp add: mset_make_events assms)
  then have "sort_events (make_events (intervals s)) = sort_events (make_events (intervals t))"
    by (rule sort_events_mset_cong)
  with len show ?thesis
    by (auto simp: Finalize_def)
qed

subsection \<open>Events and overlap counts\<close>

lemma delta_sum_simps [simp]:
  "delta_sum [] = 0" "delta_sum (e # es) = sint (snd e) + delta_sum es"
  "delta_sum (xs @ ys) = delta_sum xs + delta_sum ys"
  by (simp_all add: delta_sum_def)

lemma sint_succ_64: "sint (e :: int64_t) < 2 ^ 63 - 1 \<Longrightarrow> sint (e + 1) = sint e + 1"
  using sint_ge [of e]
  by (simp add: sint_word_ariths signed_take_bit_int_eq_self)

lemma overlap_at_simps [simp]:
  "overlap_at [] p = 0"
  "overlap_at (i # ivs) p = (if sint (fst i) \<le> p \<and> p \<le> sint (snd i) then 1 else 0) + overlap_at ivs p"
  by (simp_all add: overlap_at_def)

lemma delta_sum_filter_make_events:
  "list_all valid_interval ivs \<Longrightarrow>
   delta_sum (filter (\<lambda>e. sint (fst e) \<le> p) (make_events ivs)) = int (overlap_at ivs p)"
proof (induction ivs)
  case Nil
  show ?case by simp
next
  case (Cons i ivs)
  then have a: "sint (fst i) \<le> sint (snd i)" and b: "sint (snd i + 1) = sint (snd i) + 1"
    by (simp_all add: valid_interval_def word_sle_eq sint_succ_64)
  from Cons have IH: "delta_sum (filter (\<lambda>e. sint (fst e) \<le> p) (make_events ivs)) = int (overlap_at ivs p)"
    by simp
  show ?case
    using a by (simp add: IH b)
qed

lemma delta_sum_mset_cong:
  assumes "mset xs = mset ys"
  shows "delta_sum xs = delta_sum ys"
proof -
  have "delta_sum zs = sum_mset (image_mset (\<lambda>e. sint (snd e)) (mset zs))" for zs
    unfolding delta_sum_def by (simp flip: sum_mset_sum_list)
  then show ?thesis by (simp add: assms)
qed

lemma delta_sum_filter_sort_events:
  "delta_sum (filter P (sort_events es)) = delta_sum (filter P es)"
  by (rule delta_sum_mset_cong) (simp add: mset_sort_events)

lemma filter_sorted_takeWhile:
  "sorted_wrt R es \<Longrightarrow> (\<And>a b. R a b \<Longrightarrow> P b \<Longrightarrow> P a) \<Longrightarrow> filter P es = takeWhile P es"
proof (induction es)
  case Nil
  show ?case by simp
next
  case (Cons x xs)
  show ?case
  proof (cases "P x")
    case True
    with Cons show ?thesis by simp
  next
    case False
    with Cons.prems have "\<forall>b\<in>set xs. \<not> P b" by auto
    with False show ?thesis by (simp add: filter_empty_conv)
  qed
qed

lemma not_event_less_iff:
  "\<not> event_less b a \<longleftrightarrow>
     sint (fst a) < sint (fst b) \<or> (sint (fst a) = sint (fst b) \<and> sint (snd a) \<le> sint (snd b))"
  by (auto simp: event_less_iff)

lemma filter_pos_is_prefix:
  assumes "sorted_wrt (\<lambda>a b. \<not> event_less b a) es"
  shows "\<exists>n\<le>length es. filter (\<lambda>e. sint (fst e) \<le> p) es = take n es"
proof -
  have "filter (\<lambda>e. sint (fst e) \<le> p) es = takeWhile (\<lambda>e. sint (fst e) \<le> p) es"
    using assms by (rule filter_sorted_takeWhile) (auto simp: not_event_less_iff)
  then have "filter (\<lambda>e. sint (fst e) \<le> p) es =
      take (length (takeWhile (\<lambda>e. sint (fst e) \<le> p) es)) es"
    by (simp flip: takeWhile_eq_take)
  moreover have "length (takeWhile (\<lambda>e. sint (fst e) \<le> p) es) \<le> length es"
    by (rule length_takeWhile_le)
  ultimately show ?thesis by blast
qed

lemma delta_sum_filter_split:
  "delta_sum xs = delta_sum (filter P xs) + delta_sum (filter (\<lambda>x. \<not> P x) xs)"
  by (induction xs) auto

lemma delta_sum_nonneg: "(\<And>e. e \<in> set es \<Longrightarrow> 0 \<le> sint (snd e)) \<Longrightarrow> 0 \<le> delta_sum es"
  by (induction es) auto

lemma delta_sum_nonpos: "(\<And>e. e \<in> set es \<Longrightarrow> sint (snd e) \<le> 0) \<Longrightarrow> delta_sum es \<le> 0"
  by (induction es) (auto simp: add_nonpos_nonpos)

lemma prefix_below_some_point:
  assumes sorted: "sorted_wrt (\<lambda>a b. \<not> event_less b a) es"
    and n: "0 < n" "n \<le> length es"
    and deltas: "\<And>e. e \<in> set es \<Longrightarrow> sint (snd e) = 1 \<or> sint (snd e) = - 1"
  shows "\<exists>p. delta_sum (take n es) \<le> delta_sum (filter (\<lambda>e. sint (fst e) \<le> p) es)"
proof -
  define xs ys where "xs = take n es" and "ys = drop n es"
  have es: "es = xs @ ys" by (simp add: xs_def ys_def)
  from n have "xs \<noteq> []" by (auto simp: xs_def)
  define x where "x = last xs"
  have x_in: "x \<in> set xs" using \<open>xs \<noteq> []\<close> by (simp add: x_def)
  have sorted_app: "sorted_wrt (\<lambda>a b. \<not> event_less b a) (xs @ ys)"
    using sorted es by simp
  have before: "\<not> event_less x a" if "a \<in> set xs" for a
  proof -
    from sorted_app have "sorted_wrt (\<lambda>a b. \<not> event_less b a) xs"
      by (simp add: sorted_wrt_append)
    with \<open>xs \<noteq> []\<close> have "sorted_wrt (\<lambda>a b. \<not> event_less b a) (butlast xs @ [x])"
      by (simp add: x_def)
    then have "\<forall>b\<in>set (butlast xs). \<not> event_less x b"
      by (simp add: sorted_wrt_append)
    moreover have "set xs = set (butlast xs @ [x])"
      using \<open>xs \<noteq> []\<close> by (simp add: x_def)
    with that have "a \<in> set (butlast xs) \<or> a = x"
      by auto
    moreover have "\<not> event_less x x"
      by (simp add: event_less_iff)
    ultimately show ?thesis by blast
  qed
  have after: "\<not> event_less b x" if "b \<in> set ys" for b
    using sorted_app x_in that by (simp add: sorted_wrt_append)
  from x_in es have "x \<in> set es" by simp
  from deltas [OF this] consider "sint (snd x) = 1" | "sint (snd x) = - 1" by blast
  then show ?thesis
  proof cases
    case 1
    let ?P = "\<lambda>e. sint (fst e) \<le> sint (fst x)"
    have "?P e" if "e \<in> set xs" for e
      using before [OF that] unfolding not_event_less_iff by linarith
    then have "filter ?P xs = xs"
      by (simp add: filter_id_conv)
    moreover have "0 \<le> delta_sum (filter ?P ys)"
    proof (rule delta_sum_nonneg)
      fix e assume "e \<in> set (filter ?P ys)"
      then have "e \<in> set ys" and le: "sint (fst e) \<le> sint (fst x)" by simp_all
      from after [OF this(1)] le 1 show "0 \<le> sint (snd e)"
        unfolding not_event_less_iff by linarith
    qed
    ultimately have "delta_sum xs \<le> delta_sum (filter ?P es)"
      by (simp add: es)
    then show ?thesis unfolding xs_def by blast
  next
    case 2
    let ?P = "\<lambda>e. sint (fst e) \<le> sint (fst x) - 1"
    have "\<not> ?P e" if "e \<in> set ys" for e
      using after [OF that] unfolding not_event_less_iff by linarith
    then have "filter ?P ys = []"
      by (simp add: filter_empty_conv)
    moreover have "delta_sum (filter (\<lambda>e. \<not> ?P e) xs) \<le> 0"
    proof (rule delta_sum_nonpos)
      fix e assume "e \<in> set (filter (\<lambda>e. \<not> ?P e) xs)"
      then have "e \<in> set xs" and ge: "sint (fst x) \<le> sint (fst e)" by simp_all
      from before [OF this(1)] ge 2 show "sint (snd e) \<le> 0"
        unfolding not_event_less_iff by linarith
    qed
    moreover have "delta_sum xs = delta_sum (filter ?P xs) + delta_sum (filter (\<lambda>e. \<not> ?P e) xs)"
      by (rule delta_sum_filter_split)
    ultimately have "delta_sum xs \<le> delta_sum (filter ?P es)"
      by (simp add: es)
    then show ?thesis unfolding xs_def by blast
  qed
qed

subsection \<open>The sweep loop\<close>

lemma sweep_int_ge_max: "m \<le> sweep_int c m ds"
proof (induction ds arbitrary: c m)
  case Nil
  show ?case by simp
next
  case (Cons d ds)
  have "m \<le> max m (c + d)" by simp
  also have "\<dots> \<le> sweep_int (c + d) (max m (c + d)) ds" by (rule Cons.IH)
  finally show ?case by simp
qed

lemma sweep_int_ge_prefix:
  "0 < n \<Longrightarrow> n \<le> length ds \<Longrightarrow> c + sum_list (take n ds) \<le> sweep_int c m ds"
proof (induction ds arbitrary: c m n)
  case Nil
  then show ?case by simp
next
  case (Cons d ds)
  from Cons.prems obtain k where n: "n = Suc k" by (cases n) auto
  show ?case
  proof (cases k)
    case 0
    have "c + d \<le> max m (c + d)" by simp
    also have "\<dots> \<le> sweep_int (c + d) (max m (c + d)) ds" by (rule sweep_int_ge_max)
    finally show ?thesis using n 0 by simp
  next
    case (Suc j)
    with Cons.prems n have "0 < k" "k \<le> length ds" by simp_all
    then have "(c + d) + sum_list (take k ds) \<le> sweep_int (c + d) (max m (c + d)) ds"
      by (rule Cons.IH)
    then show ?thesis using n by (simp add: add.assoc)
  qed
qed

lemma sweep_int_attained:
  "sweep_int c m ds = m \<or>
   (\<exists>n. 0 < n \<and> n \<le> length ds \<and> sweep_int c m ds = c + sum_list (take n ds))"
proof (induction ds arbitrary: c m)
  case Nil
  show ?case by simp
next
  case (Cons d ds)
  from Cons.IH [of "c + d" "max m (c + d)"]
  consider "sweep_int (c + d) (max m (c + d)) ds = max m (c + d)"
    | n where "0 < n" "n \<le> length ds"
        "sweep_int (c + d) (max m (c + d)) ds = c + d + sum_list (take n ds)"
    by blast
  then show ?case
  proof cases
    case 1
    show ?thesis
    proof (cases "m \<le> c + d")
      case True
      with 1 have "sweep_int c m (d # ds) = c + sum_list (take (Suc 0) (d # ds))"
        by simp
      then show ?thesis by (intro disjI2 exI [of _ "Suc 0"]) simp
    next
      case False
      with 1 show ?thesis by simp
    qed
  next
    case 2
    then have "sweep_int c m (d # ds) = c + sum_list (take (Suc n) (d # ds))"
      by (simp add: add.assoc)
    with 2 show ?thesis by (intro disjI2 exI [of _ "Suc n"]) simp
  qed
qed

lemma sint_pred_64: "- (2 ^ 63) < sint (e :: int64_t) \<Longrightarrow> sint (e - 1) = sint e - 1"
  using sint_lt [of e]
  by (simp add: sint_word_ariths signed_take_bit_int_eq_self)

lemma sweep_sint:
  "list_all (\<lambda>e. snd e = 1 \<or> snd e = - 1) es \<Longrightarrow>
   \<bar>sint c\<bar> + int (length es) < 2 ^ 63 \<Longrightarrow>
   sint (sweep c m es) = sweep_int (sint c) (sint m) (map (\<lambda>e. sint (snd e)) es)"
proof (induction es arbitrary: c m)
  case Nil
  show ?case by simp
next
  case (Cons e es)
  from Cons.prems(1) have tail: "list_all (\<lambda>e. snd e = 1 \<or> snd e = - 1) es"
    and d: "snd e = 1 \<or> snd e = - 1" by simp_all
  define c' where "c' = c + scast (snd e)"
  have c': "sint c' = sint c + sint (snd e)"
    using d Cons.prems(2) by (auto simp: c'_def sint_succ_64 sint_pred_64)
  then have "\<bar>sint c'\<bar> + int (length es) < 2 ^ 63"
    using d Cons.prems(2) by auto
  from Cons.IH [OF tail this]
  have "sint (sweep c' (if m <s c' then c' else m) es) =
        sweep_int (sint c') (sint (if m <s c' then c' else m)) (map (\<lambda>e. sint (snd e)) es)" .
  moreover have "sint (if m <s c' then c' else m) = max (sint m) (sint c')"
    by (simp add: word_sless_alt max_def)
  ultimately show ?case
    by (simp add: c'_def [symmetric] c' Let_def)
qed

lemma intervals_accumulate_all:
  "intervals (accumulate_all state rows) =
     intervals state @ filter (\<lambda>r. fst r \<le>s snd r) rows"
  by (induction rows arbitrary: state) (simp_all add: Operation_def)

lemma length_make_events: "length (make_events ivs) = 2 * length ivs"
  by (induction ivs) simp_all

lemma deltas_make_events: "list_all (\<lambda>e. snd e = 1 \<or> snd e = - 1) (make_events ivs)"
  by (induction ivs) simp_all

lemma deltas_sort_events:
  "list_all (\<lambda>e. snd e = 1 \<or> snd e = - 1) es \<Longrightarrow>
   list_all (\<lambda>e. snd e = 1 \<or> snd e = - 1) (sort_events es)"
proof -
  have "set (sort_events es) = set es"
    by (rule mset_eq_setD) (rule mset_sort_events)
  then show "list_all (\<lambda>e. snd e = 1 \<or> snd e = - 1) es \<Longrightarrow>
      list_all (\<lambda>e. snd e = 1 \<or> snd e = - 1) (sort_events es)"
    by (simp add: list_all_iff)
qed

lemma length_sort_events: "length (sort_events es) = length es"
  by (rule mset_eq_length) (rule mset_sort_events)

lemma overlap_at_le_length: "overlap_at ivs p \<le> length ivs"
  by (simp add: overlap_at_def)

lemma overlap_at_start:
  "list_all valid_interval ivs \<Longrightarrow> i \<in> set ivs \<Longrightarrow> 0 < overlap_at ivs (sint (fst i))"
  by (induction ivs) (auto simp: valid_interval_def word_sle_eq)

lemma sweep_sorted_events:
  assumes valid: "list_all valid_interval ivs" and ne: "ivs \<noteq> []"
    and len: "2 * length ivs < 2 ^ 63"
  defines "r \<equiv> sint (sweep 0 0 (sort_events (make_events ivs)))"
  shows "int (overlap_at ivs p) \<le> r" and "\<exists>q. int (overlap_at ivs q) = r"
proof -
  define es where "es = sort_events (make_events ivs)"
  define ds where "ds = map (\<lambda>e. sint (snd e)) es"
  have sorted: "sorted_wrt (\<lambda>a b. \<not> event_less b a) es"
    unfolding es_def by (rule sorted_sort_events)
  have deltas: "list_all (\<lambda>e. snd e = 1 \<or> snd e = - 1) es"
    unfolding es_def by (intro deltas_sort_events deltas_make_events)
  have length_es: "length es = 2 * length ivs"
    by (simp add: es_def length_sort_events length_make_events)
  have r: "r = sweep_int 0 0 ds"
  proof -
    have "\<bar>sint (0 :: int64_t)\<bar> + int (length es) < 2 ^ 63"
      using len by (simp add: length_es)
    from sweep_sint [OF deltas this] show ?thesis
      by (simp add: r_def es_def ds_def)
  qed
  have prefix_sum: "sum_list (take n ds) = delta_sum (take n es)" for n
    by (simp add: ds_def delta_sum_def take_map)
  have cover: "int (overlap_at ivs q) = delta_sum (filter (\<lambda>e. sint (fst e) \<le> q) es)" for q
    by (simp add: es_def delta_sum_filter_sort_events delta_sum_filter_make_events [OF valid])
  have upper: "int (overlap_at ivs q) \<le> r" for q
  proof -
    from filter_pos_is_prefix [OF sorted, of q]
    obtain n where n: "n \<le> length es" "filter (\<lambda>e. sint (fst e) \<le> q) es = take n es"
      by blast
    show ?thesis
    proof (cases "n = 0")
      case True
      with n cover [of q] have "int (overlap_at ivs q) = 0" by simp
      also have "0 \<le> r" unfolding r by (rule sweep_int_ge_max)
      finally show ?thesis .
    next
      case False
      with n have "0 < n" "n \<le> length ds" by (simp_all add: ds_def)
      then have "0 + sum_list (take n ds) \<le> sweep_int 0 0 ds"
        by (rule sweep_int_ge_prefix)
      then show ?thesis
        by (simp add: r prefix_sum cover n)
    qed
  qed
  then show "int (overlap_at ivs p) \<le> r" .
  from ne obtain i where "i \<in> set ivs" by (cases ivs) auto
  from overlap_at_start [OF valid this] upper [of "sint (fst i)"] have "0 < r"
    by linarith
  with sweep_int_attained [of 0 0 ds] obtain n
    where n: "0 < n" "n \<le> length ds" "r = sum_list (take n ds)"
    by (auto simp: r)
  have "\<exists>q. delta_sum (take n es) \<le> delta_sum (filter (\<lambda>e. sint (fst e) \<le> q) es)"
  proof (rule prefix_below_some_point [OF sorted n(1)])
    show "n \<le> length es" using n(2) by (simp add: ds_def)
  next
    fix e assume "e \<in> set es"
    with deltas have "snd e = 1 \<or> snd e = - 1" by (simp add: list_all_iff)
    then show "sint (snd e) = 1 \<or> sint (snd e) = - 1" by auto
  qed
  then obtain q where "r \<le> int (overlap_at ivs q)"
    by (auto simp: n(3) prefix_sum cover)
  with upper [of q] have "int (overlap_at ivs q) = r" by simp
  then show "\<exists>q. int (overlap_at ivs q) = r" ..
qed

lemma Max_overlap_eqI:
  assumes "\<And>p. overlap_at ivs p \<le> k" and "\<exists>q. overlap_at ivs q = k"
  shows "Max (range (overlap_at ivs)) = k"
proof (rule Max_eqI)
  have "range (overlap_at ivs) \<subseteq> {..length ivs}"
    by (auto simp: overlap_at_le_length)
  then show "finite (range (overlap_at ivs))"
    by (rule finite_subset) simp
next
  fix y assume "y \<in> range (overlap_at ivs)"
  with assms(1) show "y \<le> k" by auto
next
  from assms(2) show "k \<in> range (overlap_at ivs)" by auto
qed

subsection \<open>States of computations\<close>

lemma filter_mset_replicate:
  "filter_mset P (replicate_mset n x) = (if P x then replicate_mset n x else {#})"
  by (induction n) simp_all

lemma mset_intervals_run:
  "mset (intervals (run p)) = filter_mset (\<lambda>r. fst r \<le>s snd r) (plan_rows p)"
proof (induction p)
  case Fresh
  show ?case by (simp add: Initialize_def)
next
  case (Accumulate p left right)
  then show ?case by (simp add: Operation_def)
next
  case (ConstantAccumulate p left right cnt)
  then show ?case
    by (simp add: ConstantOperation_def emplace_back_loop_replicate filter_mset_replicate)
next
  case (Merge source target)
  then show ?case by (auto simp: Combine_def)
qed

lemma mset_intervals_accumulate_all:
  "mset (intervals (accumulate_all Initialize rows)) =
     filter_mset (\<lambda>r. fst r \<le>s snd r) (mset rows)"
  by (simp add: intervals_accumulate_all Initialize_def)

section \<open>Claims\<close>

text \<open>
  C1. Accumulate a non-empty list of rows, every one a valid interval (\<open>start \<le> end\<close> and
  \<open>end < 2^63 - 1\<close>), into a fresh state, in any order. Then \<^verbatim>\<open>Finalize\<close> returns the
  maximum, over all integer points \<open>p\<close>, of the number of intervals (with multiplicity)
  that contain \<open>p\<close>. The third hypothesis says that the \<open>2k\<close> events can be counted in an
  \<^verbatim>\<open>int64_t\<close>; a \<^verbatim>\<open>std::vector\<close> of 16-byte pairs in a 64-bit address space holds
  fewer than \<open>2^60\<close> elements, so every state the code can build satisfies it.
\<close>

theorem Finalize_max_overlap:
  assumes "rows \<noteq> []" and "list_all valid_interval rows" and "2 * length rows < 2 ^ 63"
  shows "sint (Finalize (accumulate_all Initialize rows)) = int (Max (range (overlap_at rows)))"
proof -
  have "filter (\<lambda>r. fst r \<le>s snd r) rows = rows"
    using assms(2) by (simp add: filter_id_conv list_all_iff valid_interval_def)
  then have ivs: "intervals (accumulate_all Initialize rows) = rows"
    by (simp add: intervals_accumulate_all Initialize_def)
  show ?thesis
  proof (cases "length rows = 1")
    case True
    then obtain i where rows: "rows = [i]"
      by (cases rows) auto
    have "Max (range (overlap_at rows)) = 1"
    proof (rule Max_overlap_eqI)
      show "overlap_at rows p \<le> 1" for p
        using overlap_at_le_length [of rows p] True by simp
      have "0 < overlap_at rows (sint (fst i))"
        by (rule overlap_at_start [OF assms(2)]) (simp add: rows)
      moreover have "overlap_at rows (sint (fst i)) \<le> 1"
        using overlap_at_le_length [of rows "sint (fst i)"] True by simp
      ultimately show "\<exists>q. overlap_at rows q = 1"
        by (intro exI [of _ "sint (fst i)"]) linarith
    qed
    with True assms(1) show ?thesis
      by (simp add: Finalize_def ivs)
  next
    case False
    define r where "r = sint (sweep 0 0 (sort_events (make_events rows)))"
    have upper: "int (overlap_at rows p) \<le> r" for p
      unfolding r_def by (rule sweep_sorted_events(1) [OF assms(2,1,3)])
    have "\<exists>q. int (overlap_at rows q) = r"
      unfolding r_def by (rule sweep_sorted_events(2) [OF assms(2,1,3)])
    then obtain q where q: "int (overlap_at rows q) = r" ..
    then have r_nat: "r = int (nat r)" by simp
    have "Max (range (overlap_at rows)) = nat r"
    proof (rule Max_overlap_eqI)
      show "overlap_at rows p \<le> nat r" for p
        using upper [of p] by simp
      show "\<exists>q. overlap_at rows q = nat r"
        using q by (intro exI [of _ q]) simp
    qed
    with r_nat have "int (Max (range (overlap_at rows))) = r" by simp
    moreover have "Finalize (accumulate_all Initialize rows) = sweep 0 0 (sort_events (make_events rows))"
      using False assms(1) by (simp add: Finalize_def ivs)
    ultimately show ?thesis by (simp add: r_def)
  qed
qed

theorem Finalize_max_overlap_witness:
  "[(1, 3), (2, 6), (4, 5), (8, 9)] \<noteq> ([] :: (int64_t \<times> int64_t) list) \<and>
   list_all valid_interval [(1, 3), (2, 6), (4, 5), (8, 9)] \<and>
   2 * length [(1, 3), (2, 6), (4, 5), (8, 9 :: int64_t) :: int64_t \<times> int64_t] < (2 :: nat) ^ 63 \<and>
   Finalize (accumulate_all Initialize [(1, 3), (2, 6), (4, 5), (8, 9)]) = 2 \<and>
   Max (range (overlap_at [(1, 3), (2, 6), (4, 5), (8, 9)])) = 2"
proof -
  have a: "[(1, 3), (2, 6), (4, 5), (8, 9)] \<noteq> ([] :: (int64_t \<times> int64_t) list)" by simp
  have b: "list_all valid_interval [(1, 3), (2, 6), (4, 5), (8, 9)]"
    by code_simp
  have c: "2 * length [(1, 3), (2, 6), (4, 5), (8, 9 :: int64_t) :: int64_t \<times> int64_t] < (2 :: nat) ^ 63"
    by simp
  have d: "Finalize (accumulate_all Initialize [(1, 3), (2, 6), (4, 5), (8, 9)]) = 2"
    by code_simp
  from Finalize_max_overlap [OF a b c] d a b c show ?thesis by simp
qed

text \<open>
  C2. Let a computation accumulate rows into any number of fresh states and merge the
  states in any order and grouping, and let \<open>rows\<close> list the same rows with the same
  multiplicities. Then \<^verbatim>\<open>Finalize\<close> on the merged state returns what it returns after
  accumulating \<open>rows\<close> one by one into a single fresh state.
\<close>

theorem merge_order_independent:
  assumes "plan_rows p = mset rows"
  shows "Finalize (run p) = Finalize (accumulate_all Initialize rows)"
  by (rule Finalize_mset_cong) (simp add: mset_intervals_run mset_intervals_accumulate_all assms)

theorem merge_order_independent_witness:
  "plan_rows (Merge (Accumulate (Accumulate Fresh 1 5) 7 2)
                (Merge (ConstantAccumulate Fresh 5 10 2) (Accumulate (Merge Fresh Fresh) 3 4)))
     = mset [(5, 10), (3, 4), (7, 2), (1, 5), (5, 10)] \<and>
   Finalize (run (Merge (Accumulate (Accumulate Fresh 1 5) 7 2)
                (Merge (ConstantAccumulate Fresh 5 10 2) (Accumulate (Merge Fresh Fresh) 3 4))))
     = Finalize (accumulate_all Initialize [(5, 10), (3, 4), (7, 2), (1, 5), (5, 10)]) \<and>
   Finalize (accumulate_all Initialize [(5, 10), (3, 4), (7, 2), (1, 5), (5, 10)]) = 3"
proof -
  have u: "replicate_mset 2 x = {#x, x#}" for x :: "int64_t \<times> int64_t"
    by (simp add: numeral_2_eq_2)
  have a: "plan_rows (Merge (Accumulate (Accumulate Fresh 1 5) 7 2)
                (Merge (ConstantAccumulate Fresh 5 10 2) (Accumulate (Merge Fresh Fresh) 3 4)))
     = mset [(5, 10), (3, 4), (7, 2), (1, 5), (5, 10)]"
    by (simp add: u)
  have b: "Finalize (accumulate_all Initialize [(5, 10), (3, 4), (7, 2), (1, 5), (5, 10)]) = 3"
    by code_simp
  from merge_order_independent [OF a] a b show ?thesis by simp
qed

text \<open>
  C3. A state with exactly the intervals \<open>(1, 5)\<close> and \<open>(6, 10)\<close> finalizes to 1; a state
  with exactly the intervals \<open>(1, 5)\<close> and \<open>(5, 10)\<close> finalizes to 2. Both orders of
  storage are covered, and the states reached by accumulating the two rows.
\<close>

theorem Finalize_touching_intervals:
  "Finalize \<lparr>intervals = [(1, 5), (6, 10)]\<rparr> = 1 \<and>
   Finalize \<lparr>intervals = [(6, 10), (1, 5)]\<rparr> = 1 \<and>
   Finalize \<lparr>intervals = [(1, 5), (5, 10)]\<rparr> = 2 \<and>
   Finalize \<lparr>intervals = [(5, 10), (1, 5)]\<rparr> = 2 \<and>
   Finalize (accumulate_all Initialize [(1, 5), (6, 10)]) = 1 \<and>
   Finalize (accumulate_all Initialize [(1, 5), (5, 10)]) = 2"
  by code_simp

text \<open>
  C4. For every state and every pair with \<open>left > right\<close>, the \<^verbatim>\<open>Operation\<close> call leaves
  the state as it was, so \<^verbatim>\<open>Finalize\<close> returns what it returns without the call.
\<close>

theorem Operation_invalid_noop:
  assumes "right <s left"
  shows "Operation state left right = state \<and>
         Finalize (Operation state left right) = Finalize state"
  using assms by (auto simp: Operation_def word_sle_eq word_sless_alt)

theorem Operation_invalid_noop_witness:
  "(3 :: int64_t) <s 7 \<and>
   Operation \<lparr>intervals = [(1, 5)]\<rparr> 7 3 = \<lparr>intervals = [(1, 5)]\<rparr> \<and>
   Finalize (Operation \<lparr>intervals = [(1, 5)]\<rparr> 7 3) = Finalize \<lparr>intervals = [(1, 5)]\<rparr>"
proof -
  have h: "(3 :: int64_t) <s 7" by code_simp
  from Operation_invalid_noop [OF h, of "\<lparr>intervals = [(1, 5)]\<rparr>"] h show ?thesis by simp
qed

text \<open>
  C5. \<^verbatim>\<open>Finalize\<close> applied to a freshly initialized state, into which nothing was ever
  accumulated or merged, gives 0.
\<close>

theorem Finalize_fresh_state: "Finalize Initialize = 0"
  by (simp add: Finalize_def Initialize_def)

text \<open>
  C6. For every pair with \<open>left \<le> right\<close>, the state that holds exactly that one interval
  (the state reached by accumulating it into a fresh state) finalizes to 1. This includes
  \<open>right = 2^63 - 1\<close>: the single-interval path builds no event.
\<close>

theorem Finalize_single_interval:
  assumes "left \<le>s right"
  shows "Operation Initialize left right = \<lparr>intervals = [(left, right)]\<rparr> \<and>
         Finalize (Operation Initialize left right) = 1"
  using assms by (simp add: Operation_def Finalize_def Initialize_def)

theorem Finalize_single_interval_witness:
  "(2 :: int64_t) \<le>s 0x7FFFFFFFFFFFFFFF \<and>
   Operation Initialize 2 0x7FFFFFFFFFFFFFFF = \<lparr>intervals = [(2, 0x7FFFFFFFFFFFFFFF)]\<rparr> \<and>
   Finalize (Operation Initialize 2 0x7FFFFFFFFFFFFFFF) = 1"
proof -
  have h: "(2 :: int64_t) \<le>s 0x7FFFFFFFFFFFFFFF" by code_simp
  from Finalize_single_interval [OF h] h show ?thesis by blast
qed

text \<open>
  C7. For every state, pair and count \<open>n\<close>, \<^verbatim>\<open>ConstantOperation\<close> with count \<open>n\<close> gives
  the state that \<open>n\<close> calls of \<^verbatim>\<open>Operation\<close> with the same pair give, and so the same
  \<^verbatim>\<open>Finalize\<close> result.
\<close>

theorem ConstantOperation_eq_repeated_Operation:
  "ConstantOperation state left right cnt =
     ((\<lambda>s. Operation s left right) ^^ unat cnt) state \<and>
   Finalize (ConstantOperation state left right cnt) =
     Finalize (((\<lambda>s. Operation s left right) ^^ unat cnt) state)"
  by (cases "left \<le>s right")
    (simp_all add: ConstantOperation_def Operation_funpow Operation_invalid_funpow
      emplace_back_loop_replicate)

text \<open>
  C8. Every interval stored in the state of any computation built from Initialize,
  Accumulate, ConstantAccumulate and Merge has \<open>start \<le> end\<close>.
\<close>

theorem stored_intervals_valid:
  assumes "i \<in> set (intervals (run p))"
  shows "fst i \<le>s snd i"
proof -
  from assms have "i \<in># mset (intervals (run p))" by simp
  then show ?thesis unfolding mset_intervals_run by simp
qed

theorem stored_intervals_valid_witness:
  "(1, 5) \<in> set (intervals (run (Merge (Accumulate (Accumulate Fresh 1 5) 7 2)
                                   (ConstantAccumulate (Accumulate Fresh 9 8) 3 4 2)))) \<and>
   fst (1 :: int64_t, 5 :: int64_t) \<le>s snd (1 :: int64_t, 5 :: int64_t)"
proof -
  have h: "(1, 5) \<in> set (intervals (run (Merge (Accumulate (Accumulate Fresh 1 5) 7 2)
                                   (ConstantAccumulate (Accumulate Fresh 9 8) 3 4 2))))"
    by code_simp
  from stored_intervals_valid [OF h] h show ?thesis by simp
qed

text \<open>
  C9. A \<^verbatim>\<open>Combine\<close> call whose source and target are distinct state objects, or whose
  source is empty, leaves the source state as it was: the same intervals in the same
  order. The contents are copied to the end of the target, not moved out.
\<close>

theorem Combine_at_source_unchanged:
  assumes "source \<noteq> target \<or> intervals (h source) = []"
  shows "Combine_at h source target source = h source \<and>
         intervals (Combine_at h source target source) = intervals (h source) \<and>
         intervals (Combine_at h source target target) =
           intervals (h target) @ intervals (h source)"
  using assms by (auto simp: Combine_at_def)

theorem Combine_at_source_unchanged_witness:
  "(0 :: state_ptr) \<noteq> 1 \<and>
   intervals (Combine_at (fresh_heap(0 := \<lparr>intervals = [(1, 5), (2, 3)]\<rparr>,
                                     1 := \<lparr>intervals = [(4, 4)]\<rparr>)) 0 1 0)
     = [(1, 5), (2, 3)] \<and>
   intervals (Combine_at (fresh_heap(0 := \<lparr>intervals = [(1, 5), (2, 3)]\<rparr>,
                                     1 := \<lparr>intervals = [(4, 4)]\<rparr>)) 0 1 1)
     = [(4, 4), (1, 5), (2, 3)]"
proof -
  have h: "(0 :: state_ptr) \<noteq> 1 \<or>
      intervals ((fresh_heap(0 := \<lparr>intervals = [(1, 5), (2, 3)]\<rparr>,
                             1 := \<lparr>intervals = [(4, 4)]\<rparr>)) 0) = []"
    by simp
  from Combine_at_source_unchanged
    [of 0 1 "fresh_heap(0 := \<lparr>intervals = [(1, 5), (2, 3)]\<rparr>, 1 := \<lparr>intervals = [(4, 4)]\<rparr>)", OF h]
  show ?thesis by simp
qed

text \<open>
  The statement without the condition fails: merging a state that holds the interval
  \<open>(1, 5)\<close> into itself leaves it with that interval twice.
\<close>

theorem Combine_at_self_merge_counterexample:
  "intervals ((fresh_heap(0 := \<lparr>intervals = [(1, 5)]\<rparr>)) 0) = [(1, 5)] \<and>
   intervals (Combine_at (fresh_heap(0 := \<lparr>intervals = [(1, 5)]\<rparr>)) 0 0 0) = [(1, 5), (1, 5)] \<and>
   intervals (Combine_at (fresh_heap(0 := \<lparr>intervals = [(1, 5)]\<rparr>)) 0 0 0)
     \<noteq> intervals ((fresh_heap(0 := \<lparr>intervals = [(1, 5)]\<rparr>)) 0)"
  by (simp add: Combine_at_def)

text \<open>
  C10. \<^verbatim>\<open>days_in_month\<close> has exactly one overload whose argument list is a single
  \<^verbatim>\<open>TIME\<close>; on every argument chunk that overload throws the
  \<^verbatim>\<open>InvalidInputException\<close> and returns no result vector.
\<close>

theorem days_in_month_time_throws:
  "map (\<lambda>f. func f args) (filter (\<lambda>f. arguments f = [TIME]) (GetFunctions binary_fn date_fn timestamp_fn))
     = [Inl (InvalidInputException
         ''days_in_month cannot be used with TIME type - TIME does not contain date information'')] \<and>
   DaysInMonthTimeFunction args
     = Inl (InvalidInputException
         ''days_in_month cannot be used with TIME type - TIME does not contain date information'') \<and>
   (\<nexists>result. DaysInMonthTimeFunction args = Inr result)"
  by (simp add: GetFunctions_def DaysInMonthTimeFunction_def)

end
